theory Spec2Isabelle
  imports Main
begin

section \<open>Python strings, lists and errors\<close>

text \<open>
  A Python \<open>str\<close> is a sequence of Unicode code points; a code point is a natural
  number here, so \<open>len\<close> is \<open>length\<close>. String literals are written with \<open>ustr\<close>.
\<close>

type_synonym pystr = "nat list"

definition ustr :: "string \<Rightarrow> pystr" where
  "ustr = map of_char"

abbreviation DASH :: nat where "DASH \<equiv> 45"
abbreviation SPACE :: nat where "SPACE \<equiv> 32"
abbreviation NEWLINE :: nat where "NEWLINE \<equiv> 10"
abbreviation CR :: nat where "CR \<equiv> 13"
abbreviation BOM :: nat where "BOM \<equiv> 65279"

text \<open>
  The characters that \<open>str.strip()\<close>, \<open>lstrip()\<close> and \<open>rstrip()\<close> remove when called
  without an argument: U+0009..U+000D, U+001C..U+0020, U+0085, U+00A0, U+1680,
  U+2000..U+200A, U+2028, U+2029, U+202F, U+205F, U+3000.
\<close>

definition isspace :: "nat \<Rightarrow> bool" where
  "isspace c \<longleftrightarrow>
     (9 \<le> c \<and> c \<le> 13) \<or> (28 \<le> c \<and> c \<le> 32) \<or> c = 133 \<or> c = 160 \<or> c = 5760 \<or>
     (8192 \<le> c \<and> c \<le> 8202) \<or> c = 8232 \<or> c = 8233 \<or> c = 8239 \<or> c = 8287 \<or> c = 12288"

definition lstrip :: "pystr \<Rightarrow> pystr" where
  "lstrip s = dropWhile isspace s"

definition rstrip :: "pystr \<Rightarrow> pystr" where
  "rstrip s = rev (dropWhile isspace (rev s))"

definition strip :: "pystr \<Rightarrow> pystr" where
  "strip s = rstrip (lstrip s)"

definition ljust :: "pystr \<Rightarrow> nat \<Rightarrow> pystr" where
  "ljust s w = s @ replicate (w - length s) SPACE"

definition rjust :: "pystr \<Rightarrow> nat \<Rightarrow> pystr" where
  "rjust s w = replicate (w - length s) SPACE @ s"

text \<open>\<open>' '.join(parts)\<close>\<close>

fun space_join :: "pystr list \<Rightarrow> pystr" where
  "space_join [] = []"
| "space_join [p] = p"
| "space_join (p # q # ps) = p @ SPACE # space_join (q # ps)"

text \<open>\<open>max(xs, default=d)\<close>\<close>

definition max_default :: "nat list \<Rightarrow> nat \<Rightarrow> nat" where
  "max_default xs d = (case xs of [] \<Rightarrow> d | y # ys \<Rightarrow> fold max ys y)"

text \<open>
  Indexing a list raises \<open>IndexError\<close> out of range. Every index of the program is a
  non-negative integer when it is used, so indices are naturals.
\<close>

datatype py_error = IndexError

definition nth_py :: "'a list \<Rightarrow> nat \<Rightarrow> py_error + 'a" where
  "nth_py xs i = (if i < length xs then Inr (xs ! i) else Inl IndexError)"

definition and_then :: "py_error + 'a \<Rightarrow> ('a \<Rightarrow> py_error + 'b) \<Rightarrow> py_error + 'b" where
  "and_then m f = (case m of Inl e \<Rightarrow> Inl e | Inr v \<Rightarrow> f v)"

text \<open>A loop or comprehension whose body may raise: the first error ends it.\<close>

fun traverse :: "('a \<Rightarrow> py_error + 'b) \<Rightarrow> 'a list \<Rightarrow> py_error + 'b list" where
  "traverse f [] = Inr []"
| "traverse f (x # xs) =
     and_then (f x) (\<lambda>y. and_then (traverse f xs) (\<lambda>ys. Inr (y # ys)))"

section \<open>Column geometry\<close>

text \<open>The inner loop of \<open>find_columns\<close>: advance \<open>i\<close> over a run of dashes.\<close>

function skip_dashes :: "pystr \<Rightarrow> nat \<Rightarrow> nat" where
  "skip_dashes dash_line i =
     (if i < length dash_line \<and> dash_line ! i = DASH then skip_dashes dash_line (Suc i) else i)"
  by pat_completeness auto
termination
  by (relation "measure (\<lambda>(dash_line, i). length dash_line - i)") auto

declare skip_dashes.simps [simp del]

lemma skip_dashes_ge: "i \<le> skip_dashes s i"
proof (induction s i rule: skip_dashes.induct)
  case (1 s i)
  show ?case
  proof (cases "i < length s \<and> s ! i = DASH")
    case True
    then have "Suc i \<le> skip_dashes s (Suc i)" using 1 by blast
    then show ?thesis using True by (subst skip_dashes.simps) simp
  next
    case False
    then show ?thesis by (subst skip_dashes.simps) auto
  qed
qed

lemma skip_dashes_gt:
  "i < length s \<Longrightarrow> s ! i = DASH \<Longrightarrow> i < skip_dashes s i"
  using skip_dashes_ge [of "Suc i" s] by (subst skip_dashes.simps) simp

function find_columns_from :: "pystr \<Rightarrow> nat \<Rightarrow> (nat \<times> nat) list \<Rightarrow> (nat \<times> nat) list" where
  "find_columns_from dash_line i columns =
     (if i < length dash_line then
        (if dash_line ! i = DASH then
           find_columns_from dash_line (skip_dashes dash_line i)
             (columns @ [(i, skip_dashes dash_line i)])
         else find_columns_from dash_line (Suc i) columns)
      else columns)"
  by pat_completeness auto
termination
proof (relation "measure (\<lambda>(dash_line, i, columns). length dash_line - i)")
  show "wf (measure (\<lambda>(dash_line, i, columns). length dash_line - i))" by simp
next
  fix dash_line :: pystr and i :: nat and columns :: "(nat \<times> nat) list"
  assume "i < length dash_line" "dash_line ! i = DASH"
  then show "((dash_line, skip_dashes dash_line i, columns @ [(i, skip_dashes dash_line i)]),
              (dash_line, i, columns)) \<in> measure (\<lambda>(dash_line, i, columns). length dash_line - i)"
    using skip_dashes_gt [of i dash_line] by simp
next
  fix dash_line :: pystr and i :: nat and columns :: "(nat \<times> nat) list"
  assume "i < length dash_line" "dash_line ! i \<noteq> DASH"
  then show "((dash_line, Suc i, columns), (dash_line, i, columns))
              \<in> measure (\<lambda>(dash_line, i, columns). length dash_line - i)"
    by simp
qed

declare find_columns_from.simps [simp del]

definition find_columns :: "pystr \<Rightarrow> (nat \<times> nat) list" where
  "find_columns dash_line = find_columns_from dash_line 0 []"

text \<open>\<open>for i in range(len(columns) - 1)\<close>: the range is empty for an empty list.\<close>

definition find_gaps :: "(nat \<times> nat) list \<Rightarrow> py_error + (nat \<times> nat) list" where
  "find_gaps columns =
     traverse (\<lambda>i. and_then (nth_py columns i) (\<lambda>c.
                and_then (nth_py columns (i + 1)) (\<lambda>c'.
                  Inr (snd c, fst c'))))
       [0 ..< length columns - 1]"

definition is_valid_header_line :: "pystr \<Rightarrow> (nat \<times> nat) list \<Rightarrow> (nat \<times> nat) list \<Rightarrow> bool" where
  "is_valid_header_line line columns gaps =
     list_all (\<lambda>(gap_start, gap_end).
        list_all (\<lambda>pos. \<not> (pos < length line \<and> line ! pos \<noteq> SPACE))
          [gap_start ..< min gap_end (length line)]) gaps"

definition extract_value :: "pystr \<Rightarrow> nat \<Rightarrow> nat \<Rightarrow> pystr" where
  "extract_value line start end =
     (if start \<ge> length line then []
      else take (min end (length line) - start) (drop start line))"

section \<open>Justification\<close>

datatype justification = JLeft | JRight

fun detect_justification :: "pystr list \<Rightarrow> justification" where
  "detect_justification [] = JLeft"
| "detect_justification (val # raw_values) =
     (let stripped = strip val in
      if stripped = [] then detect_justification raw_values
      else
        let left_spaces = length val - length (lstrip val);
            right_spaces = length val - length (rstrip val)
        in if left_spaces > 0 \<and> right_spaces = 0 then JRight
           else if right_spaces > 0 \<and> left_spaces = 0 then JLeft
           else if left_spaces > right_spaces then JRight
           else detect_justification raw_values)"

section \<open>Header collection\<close>

text \<open>
  The loop \<open>idx = dash_line_idx - 1; while idx >= 0: ...; idx -= 1\<close>. The counter of
  the model is \<open>idx + 1\<close>, so that the loop ends at 0.
\<close>

fun collect_header_loop ::
  "pystr list \<Rightarrow> (nat \<times> nat) list \<Rightarrow> (nat \<times> nat) list \<Rightarrow> nat \<Rightarrow> nat list \<Rightarrow> py_error + nat list" where
  "collect_header_loop lines columns gaps 0 header_indices = Inr header_indices"
| "collect_header_loop lines columns gaps (Suc idx) header_indices =
     and_then (nth_py lines idx) (\<lambda>line.
       if strip line = [] then Inr header_indices
       else if is_valid_header_line line columns gaps then
         collect_header_loop lines columns gaps idx (header_indices @ [idx])
       else Inr header_indices)"

definition collect_header_lines ::
  "pystr list \<Rightarrow> nat \<Rightarrow> (nat \<times> nat) list \<Rightarrow> py_error + nat list" where
  "collect_header_lines lines dash_line_idx columns =
     and_then (find_gaps columns) (\<lambda>gaps.
     and_then (collect_header_loop lines columns gaps dash_line_idx []) (\<lambda>header_indices.
       Inr (rev header_indices)))"

section \<open>Rendering a table\<close>

text \<open>\<open>header_texts[col_idx][line_idx]\<close>: one list per column, one text per header line.\<close>

definition extract_multiline_headers ::
  "pystr list \<Rightarrow> nat list \<Rightarrow> (nat \<times> nat) list \<Rightarrow> py_error + pystr list list" where
  "extract_multiline_headers lines header_indices columns =
     traverse (\<lambda>(start, end).
        traverse (\<lambda>idx. and_then (nth_py lines idx) (\<lambda>line.
                    Inr (strip (extract_value line start end))))
          header_indices)
       columns"

text \<open>\<open>[row[col_idx] for row in rows]\<close>\<close>

definition column_of :: "'a list list \<Rightarrow> nat \<Rightarrow> py_error + 'a list" where
  "column_of rows col_idx = traverse (\<lambda>row. nth_py row col_idx) rows"

text \<open>The rendering of one data row: \<open>for i, val in enumerate(row)\<close>.\<close>

definition format_row :: "justification list \<Rightarrow> nat list \<Rightarrow> pystr list \<Rightarrow> py_error + pystr" where
  "format_row justifications new_widths row =
     and_then
       (traverse (\<lambda>(i, val).
          and_then (nth_py justifications i) (\<lambda>j.
          and_then (nth_py new_widths i) (\<lambda>w.
            Inr (if j = JRight then rjust val w else ljust val w))))
          (zip [0 ..< length row] row))
       (\<lambda>parts. Inr (rstrip (space_join parts)))"

text \<open>The rendering of header line \<open>line_idx\<close>, in both branches of \<open>main\<close>.\<close>

definition format_header ::
  "pystr list list \<Rightarrow> nat list \<Rightarrow> (nat \<times> nat) list \<Rightarrow> nat \<Rightarrow> py_error + pystr" where
  "format_header header_texts new_widths columns line_idx =
     and_then
       (traverse (\<lambda>col_idx.
          and_then (nth_py header_texts col_idx) (\<lambda>col_texts.
          and_then (nth_py col_texts line_idx) (\<lambda>text.
          and_then (nth_py new_widths col_idx) (\<lambda>w.
            Inr (ljust text w)))))
          [0 ..< length columns])
       (\<lambda>header_parts. Inr (rstrip (space_join header_parts)))"

text \<open>The loop that determines the justification of each column.\<close>

definition column_justifications ::
  "pystr list list \<Rightarrow> (nat \<times> nat) list \<Rightarrow> py_error + justification list" where
  "column_justifications raw_values columns =
     traverse (\<lambda>col_idx.
        and_then (column_of raw_values col_idx) (\<lambda>col_raw.
          Inr (detect_justification col_raw)))
       [0 ..< length columns]"

text \<open>The loop that calculates the new column widths.\<close>

definition column_widths ::
  "pystr list list \<Rightarrow> pystr list list \<Rightarrow> (nat \<times> nat) list \<Rightarrow> py_error + nat list" where
  "column_widths header_texts stripped_values columns =
     traverse (\<lambda>col_idx.
        and_then (nth_py header_texts col_idx) (\<lambda>col_texts.
        and_then (column_of stripped_values col_idx) (\<lambda>col_vals.
          let max_header_line_len = max_default (map length col_texts) 0;
              max_val_len = max_default (map length col_vals) 0
          in Inr (max max_header_line_len max_val_len))))
       [0 ..< length columns]"

definition process_table ::
  "pystr list \<Rightarrow> nat list \<Rightarrow> nat \<Rightarrow> pystr list \<Rightarrow> (nat \<times> nat) list \<Rightarrow> py_error + pystr list" where
  "process_table lines header_indices dash_line_idx data_lines columns =
     (let num_header_lines = length header_indices in
      and_then (extract_multiline_headers lines header_indices columns) (\<lambda>header_texts.
      let raw_values = map (\<lambda>line. map (\<lambda>(start, end). extract_value line start end) columns) data_lines;
          stripped_values = map (map strip) raw_values
      in
      and_then (column_justifications raw_values columns) (\<lambda>justifications.
      and_then (column_widths header_texts stripped_values columns) (\<lambda>new_widths.
      and_then (traverse (format_header header_texts new_widths columns)
                  [0 ..< num_header_lines]) (\<lambda>header_out.
      and_then (traverse (\<lambda>i. and_then (nth_py new_widths i) (\<lambda>w. Inr (replicate w DASH)))
                  [0 ..< length columns]) (\<lambda>dash_parts.
      and_then (traverse (format_row justifications new_widths) stripped_values) (\<lambda>data_out.
        Inr (header_out @ [space_join dash_parts] @ data_out))))))))"

text \<open>
  The branch of \<open>main\<close> for a table without data lines: the header lines and the
  separator, with the widths of the header texts.
\<close>

definition format_header_only ::
  "pystr list \<Rightarrow> nat list \<Rightarrow> (nat \<times> nat) list \<Rightarrow> py_error + pystr list" where
  "format_header_only lines header_indices columns =
     and_then (extract_multiline_headers lines header_indices columns) (\<lambda>header_texts.
     let widths = map (\<lambda>col_texts. max_default (map length col_texts) 0) header_texts in
     and_then (traverse (format_header header_texts widths columns)
                 [0 ..< length header_indices]) (\<lambda>formatted.
       Inr (formatted @ [space_join (map (\<lambda>w. replicate w DASH) widths)])))"

section \<open>Separator lines\<close>

text \<open>
  \<open>re.match(r'^[\- ]+$', line)\<close>: one or more dashes or spaces from the start, up to the
  end of the string or to a newline that ends the string.
\<close>

definition re_match_dashes :: "pystr \<Rightarrow> bool" where
  "re_match_dashes line =
     (let body = (if line \<noteq> [] \<and> last line = NEWLINE then butlast line else line)
      in body \<noteq> [] \<and> list_all (\<lambda>c. c = DASH \<or> c = SPACE) body)"

definition is_dash_line :: "pystr \<Rightarrow> bool" where
  "is_dash_line line =
     (if line = [] \<or> strip line = [] then False
      else re_match_dashes line \<and> DASH \<in> set line)"

section \<open>The filter\<close>

text \<open>\<open>content.replace('\r\n', '\n')\<close>, \<open>.replace('\r', '\n')\<close> and \<open>.split('\n')\<close>\<close>

fun replace_crlf :: "pystr \<Rightarrow> pystr" where
  "replace_crlf (c # d # rest) =
     (if c = CR \<and> d = NEWLINE then NEWLINE # replace_crlf rest
      else c # replace_crlf (d # rest))"
| "replace_crlf cs = cs"

definition replace_cr :: "pystr \<Rightarrow> pystr" where
  "replace_cr s = map (\<lambda>c. if c = CR then NEWLINE else c) s"

fun split_newline :: "pystr \<Rightarrow> pystr list" where
  "split_newline [] = [[]]"
| "split_newline (c # cs) =
     (if c = NEWLINE then [] # split_newline cs
      else (case split_newline cs of
              part # parts \<Rightarrow> (c # part) # parts
            | [] \<Rightarrow> [[c]]))"

definition read_lines :: "pystr \<Rightarrow> pystr list" where
  "read_lines content =
     (let content = (if take 1 content = [BOM] then drop 1 content else content);
          content = replace_cr (replace_crlf content);
          lines = split_newline content
      in if lines \<noteq> [] \<and> last lines = [] then butlast lines else lines)"

text \<open>The data lines below the separator: the loop on \<open>j\<close>.\<close>

function collect_data_lines :: "pystr list \<Rightarrow> nat \<Rightarrow> pystr list \<Rightarrow> pystr list \<times> nat" where
  "collect_data_lines lines j data_lines =
     (if j < length lines then
        (let line = lines ! j in
         if strip line = [] then (data_lines, j)
         else if is_dash_line line then (data_lines, j)
         else collect_data_lines lines (Suc j) (data_lines @ [line]))
      else (data_lines, j))"
  by pat_completeness auto
termination
  by (relation "measure (\<lambda>(lines, j, data_lines). length lines - j)") auto

declare collect_data_lines.simps [simp del]

text \<open>
  The state of \<open>main\<close>: the set \<open>consumed\<close>, the dictionary \<open>output_map\<close>, and the
  lines printed so far on standard output.
\<close>

record scan_state =
  consumed :: "nat set"
  output_map :: "nat \<rightharpoonup> pystr list"
  printed :: "pystr list"

text \<open>The body of the scan loop once a separator with header lines is found.\<close>

definition table_step ::
  "pystr list \<Rightarrow> nat list \<Rightarrow> nat \<Rightarrow> pystr list \<Rightarrow> nat \<Rightarrow> (nat \<times> nat) list \<Rightarrow> scan_state
     \<Rightarrow> py_error + scan_state" where
  "table_step lines header_indices dash_line_idx data_lines j columns st =
     (if data_lines \<noteq> [] then
        and_then (process_table lines header_indices dash_line_idx data_lines columns) (\<lambda>formatted.
        let consumed' = consumed st \<union> set header_indices \<union> {dash_line_idx}
                          \<union> set [dash_line_idx + 1 ..< j] in
        and_then (nth_py header_indices 0) (\<lambda>first_header_idx.
          Inr (st\<lparr>consumed := consumed',
                  output_map := (output_map st)(first_header_idx \<mapsto> formatted)\<rparr>)))
      else
        and_then (format_header_only lines header_indices columns) (\<lambda>formatted.
        let consumed' = consumed st \<union> set header_indices \<union> {dash_line_idx} in
        and_then (nth_py header_indices 0) (\<lambda>first_header_idx.
          Inr (st\<lparr>consumed := consumed',
                  output_map := (output_map st)(first_header_idx \<mapsto> formatted)\<rparr>))))"

lemma collect_data_lines_ge: "j \<le> snd (collect_data_lines lines j data_lines)"
proof (induction lines j data_lines rule: collect_data_lines.induct)
  case (1 lines j data_lines)
  show ?case
  proof (cases "j < length lines \<and> strip (lines ! j) \<noteq> [] \<and> \<not> is_dash_line (lines ! j)")
    case True
    then have "Suc j \<le> snd (collect_data_lines lines (Suc j) (data_lines @ [lines ! j]))"
      using 1 by simp
    then show ?thesis using True by (subst collect_data_lines.simps) simp
  next
    case False
    then show ?thesis by (subst collect_data_lines.simps) (auto simp: Let_def)
  qed
qed

function main_loop :: "pystr list \<Rightarrow> nat \<Rightarrow> scan_state \<Rightarrow> py_error + scan_state" where
  "main_loop lines i st =
     (if i < length lines then
        (if is_dash_line (lines ! i) then
           (case collect_header_lines lines i (find_columns (lines ! i)) of
              Inl e \<Rightarrow> Inl e
            | Inr header_indices \<Rightarrow>
                if header_indices = [] then
                  main_loop lines (Suc i) (st\<lparr>printed := printed st @ [lines ! i]\<rparr>)
                else
                  (case table_step lines header_indices i
                          (fst (collect_data_lines lines (i + 1) []))
                          (snd (collect_data_lines lines (i + 1) []))
                          (find_columns (lines ! i)) st of
                     Inl e \<Rightarrow> Inl e
                   | Inr st' \<Rightarrow> main_loop lines (snd (collect_data_lines lines (i + 1) [])) st'))
         else main_loop lines (Suc i) st)
      else Inr st)"
  by pat_completeness auto
termination
proof (relation "measure (\<lambda>(lines, i, st). length lines - i)")
  show "wf (measure (\<lambda>(lines, i, st). length lines - i))" by simp
next
  fix lines :: "pystr list" and i :: nat and st :: scan_state
  assume "i < length lines"
  then show "((lines, Suc i, st), (lines, i, st)) \<in> measure (\<lambda>(lines, i, st). length lines - i)"
    by simp
next
  fix lines :: "pystr list" and i :: nat and st st' :: scan_state
  assume "i < length lines"
  then show "((lines, snd (collect_data_lines lines (i + 1) []), st'), (lines, i, st))
               \<in> measure (\<lambda>(lines, i, st). length lines - i)"
    using collect_data_lines_ge [of "i + 1" lines "[]"] by simp
next
  fix lines :: "pystr list" and i :: nat and st :: scan_state
  assume "i < length lines"
  then show "((lines, Suc i, st\<lparr>printed := printed st @ [lines ! i]\<rparr>), (lines, i, st))
               \<in> measure (\<lambda>(lines, i, st). length lines - i)"
    by simp
qed

declare main_loop.simps [simp del]

text \<open>The final loop of \<open>main\<close>: the lines it prints, in order.\<close>

definition emit_lines :: "pystr list \<Rightarrow> scan_state \<Rightarrow> pystr list" where
  "emit_lines lines st =
     concat (map (\<lambda>i. case output_map st i of
                         Some block \<Rightarrow> block
                       | None \<Rightarrow> if i \<in> consumed st then [] else [lines ! i])
               [0 ..< length lines])"

text \<open>
  The filter on the lines read: everything that \<open>main\<close> prints, one element per call of
  \<open>print\<close>, in the order of the calls.
\<close>

definition transform :: "pystr list \<Rightarrow> py_error + pystr list" where
  "transform lines =
     and_then (main_loop lines 0 \<lparr>consumed = {}, output_map = Map.empty, printed = []\<rparr>) (\<lambda>st.
       Inr (printed st @ emit_lines lines st))"

text \<open>\<open>main\<close>, from the text read on standard input to the text written on standard output.\<close>

definition main :: "pystr \<Rightarrow> py_error + pystr" where
  "main content =
     and_then (transform (read_lines content)) (\<lambda>out.
       Inr (concat (map (\<lambda>line. line @ [NEWLINE]) out)))"

section \<open>Notions of the specification\<close>

text \<open>A blank line: every character is one that trimming removes.\<close>

definition is_blank :: "pystr \<Rightarrow> bool" where
  "is_blank line = list_all isspace line"

text \<open>
  The padding of a raw cell: the number of characters that trimming removes on the left
  and on the right.
\<close>

definition leading_spaces :: "pystr \<Rightarrow> nat" where
  "leading_spaces val = length (takeWhile isspace val)"

definition trailing_spaces :: "pystr \<Rightarrow> nat" where
  "trailing_spaces val = length (takeWhile isspace (rev val))"

text \<open>The signal that one raw cell gives, if any, by the decision rule of the specification.\<close>

definition signal :: "pystr \<Rightarrow> justification option" where
  "signal val =
     (if is_blank val then None
      else if leading_spaces val > 0 \<and> trailing_spaces val = 0 then Some JRight
      else if trailing_spaces val > 0 \<and> leading_spaces val = 0 then Some JLeft
      else if leading_spaces val > trailing_spaces val then Some JRight
      else None)"

text \<open>The first signal of the cells in row order, \<open>left\<close> when there is none.\<close>

definition first_signal :: "pystr list \<Rightarrow> justification" where
  "first_signal cells = (case List.map_filter signal cells of [] \<Rightarrow> JLeft | j # _ \<Rightarrow> j)"

text \<open>
  The gap spans: from the end of each column span to the start of the next one.
\<close>

definition gap_spans :: "(nat \<times> nat) list \<Rightarrow> (nat \<times> nat) list" where
  "gap_spans columns = zip (map snd (butlast columns)) (map fst (tl columns))"

text \<open>
  The test for a header line: not blank, and a space at every position of every gap
  span that lies within the line.
\<close>

definition acceptable_header :: "pystr \<Rightarrow> (nat \<times> nat) list \<Rightarrow> bool" where
  "acceptable_header line gaps \<longleftrightarrow>
     \<not> is_blank line \<and>
     (\<forall>(gap_start, gap_end)\<in>set gaps. \<forall>pos\<in>{gap_start ..< gap_end}.
        pos < length line \<longrightarrow> line ! pos = SPACE)"

text \<open>
  The text of a line in a column span: the characters of the line at the positions of
  the span, as far as the line reaches.
\<close>

definition span_text :: "pystr \<Rightarrow> nat \<times> nat \<Rightarrow> pystr" where
  "span_text line col = map (\<lambda>i. line ! i) [fst col ..< min (snd col) (length line)]"

text \<open>
  The trimmed text: what is left of a text without its leading and its trailing
  whitespace.
\<close>

definition trimmed_text :: "pystr \<Rightarrow> pystr" where
  "trimmed_text s =
     take (length s - leading_spaces s - trailing_spaces s) (drop (leading_spaces s) s)"

text \<open>
  The cells of a table: the trimmed text of header line \<open>idx\<close> and of a data line in a
  column span.
\<close>

definition header_cell :: "pystr list \<Rightarrow> nat \<Rightarrow> nat \<times> nat \<Rightarrow> pystr" where
  "header_cell lines idx col = trimmed_text (span_text (lines ! idx) col)"

definition data_cell :: "pystr \<Rightarrow> nat \<times> nat \<Rightarrow> pystr" where
  "data_cell line col = trimmed_text (span_text line col)"

text \<open>
  The column width of the specification: the largest length among the header cells and
  the data cells of the column, 0 when there is none.
\<close>

definition spec_width :: "pystr list \<Rightarrow> nat list \<Rightarrow> pystr list \<Rightarrow> nat \<times> nat \<Rightarrow> nat" where
  "spec_width lines header_indices data_lines col =
     Max (insert 0 ((\<lambda>idx. length (header_cell lines idx col)) ` set header_indices \<union>
                    (\<lambda>line. length (data_cell line col)) ` set data_lines))"

text \<open>
  The rendering of the specification: cells padded to the width of their column and
  joined by one space, header and data lines trimmed on the right.
\<close>

definition render_header :: "pystr list \<Rightarrow> (nat \<times> nat) list \<Rightarrow> nat list \<Rightarrow> nat \<Rightarrow> pystr" where
  "render_header lines columns widths idx =
     rstrip (space_join (map (\<lambda>(col, w). ljust (header_cell lines idx col) w) (zip columns widths)))"

definition render_dash :: "nat list \<Rightarrow> pystr" where
  "render_dash widths = space_join (map (\<lambda>w. replicate w DASH) widths)"

definition render_data ::
  "(nat \<times> nat) list \<Rightarrow> justification list \<Rightarrow> nat list \<Rightarrow> pystr \<Rightarrow> pystr" where
  "render_data columns justifications widths line =
     rstrip (space_join (map (\<lambda>(col, j, w).
                if j = JRight then rjust (data_cell line col) w else ljust (data_cell line col) w)
             (zip columns (zip justifications widths))))"

definition column_signal :: "pystr list \<Rightarrow> nat \<times> nat \<Rightarrow> justification" where
  "column_signal data_lines col =
     first_signal (map (\<lambda>line. extract_value line (fst col) (snd col)) data_lines)"

definition render_table ::
  "pystr list \<Rightarrow> nat list \<Rightarrow> pystr list \<Rightarrow> (nat \<times> nat) list \<Rightarrow> pystr list" where
  "render_table lines header_indices data_lines columns =
     (let widths = map (spec_width lines header_indices data_lines) columns;
          justifications = map (column_signal data_lines) columns
      in map (render_header lines columns widths) header_indices @
         [render_dash widths] @
         map (render_data columns justifications widths) data_lines)"

definition render_header_only :: "pystr list \<Rightarrow> nat list \<Rightarrow> (nat \<times> nat) list \<Rightarrow> pystr list" where
  "render_header_only lines header_indices columns =
     (let widths = map (spec_width lines header_indices []) columns
      in map (render_header lines columns widths) header_indices @ [render_dash widths])"

text \<open>
  An input that is one table: header lines from the first line on, the separator at
  index \<open>n\<close>, data lines up to the end.
\<close>

definition single_table :: "pystr list \<Rightarrow> nat \<Rightarrow> bool" where
  "single_table lines n \<longleftrightarrow>
     0 < n \<and> n < length lines \<and> is_dash_line (lines ! n) \<and>
     (\<forall>i\<in>{0 ..< n}. \<not> is_dash_line (lines ! i) \<and>
        acceptable_header (lines ! i) (gap_spans (find_columns (lines ! n)))) \<and>
     (\<forall>i\<in>{n + 1 ..< length lines}. \<not> is_blank (lines ! i) \<and> \<not> is_dash_line (lines ! i))"

text \<open>The column spans of a rendered separator line: runs of the given widths, one space apart.\<close>

fun spans_from :: "nat \<Rightarrow> nat list \<Rightarrow> (nat \<times> nat) list" where
  "spans_from off [] = []"
| "spans_from off (w # ws) = (off, off + w) # spans_from (off + w + 1) ws"

text \<open>A trimmed text: no whitespace at either end.\<close>

definition trimmed :: "pystr \<Rightarrow> bool" where
  "trimmed s \<longleftrightarrow> s = [] \<or> (\<not> isspace (hd s) \<and> \<not> isspace (last s))"














section \<open>Trimming and blank lines\<close>

lemma dropWhile_all_iff: "(\<forall>c\<in>set (dropWhile P s). P c) \<longleftrightarrow> (\<forall>c\<in>set s. P c)"
  by (induction s) auto

lemma strip_empty_iff: "strip s = [] \<longleftrightarrow> is_blank s"
proof -
  have "strip s = [] \<longleftrightarrow> (\<forall>c\<in>set (dropWhile isspace s). isspace c)"
    by (simp add: strip_def rstrip_def lstrip_def)
  then show ?thesis by (simp add: dropWhile_all_iff is_blank_def list_all_iff)
qed

lemma isspace_SPACE [simp]: "isspace SPACE"
  by (simp add: isspace_def)

lemma not_isspace_DASH [simp]: "\<not> isspace DASH"
  by (simp add: isspace_def)

section \<open>Trimmed and padded text\<close>

lemma rstrip_decomp:
  "\<exists>tail. s = rstrip s @ tail \<and> (\<forall>c\<in>set tail. isspace c)"
proof -
  have "rev s = takeWhile isspace (rev s) @ dropWhile isspace (rev s)" by simp
  then have "s = rev (dropWhile isspace (rev s)) @ rev (takeWhile isspace (rev s))"
    by (metis rev_append rev_rev_ident)
  moreover have "\<forall>c\<in>set (rev (takeWhile isspace (rev s))). isspace c"
    by (auto dest: set_takeWhileD)
  ultimately show ?thesis unfolding rstrip_def by blast
qed




lemma trimmed_strip: "trimmed (strip x)"
proof -
  define y where "y = dropWhile isspace x"
  define z where "z = dropWhile isspace (rev y)"
  have s: "strip x = rev z" by (simp add: strip_def lstrip_def rstrip_def y_def z_def)
  show ?thesis
  proof (cases "z = []")
    case True
    then show ?thesis using s by (simp add: trimmed_def)
  next
    case False
    then have hz: "\<not> isspace (hd z)" unfolding z_def by (rule hd_dropWhile)
    have yne: "y \<noteq> []"
    proof
      assume "y = []"
      then have "z = []" unfolding z_def by simp
      then show False using False by simp
    qed
    then have hy: "\<not> isspace (hd y)" unfolding y_def by (rule hd_dropWhile)
    have "rev y = takeWhile isspace (rev y) @ z" unfolding z_def by simp
    then have "last (rev y) = last z" using False by (metis last_appendR)
    then have "last z = hd y" using yne by (simp add: last_rev)
    then show ?thesis using s False hz hy by (simp add: trimmed_def hd_rev last_rev)
  qed
qed




section \<open>Cells\<close>

lemma extract_value_span_text: "extract_value line start end = span_text line (start, end)"
proof (cases "start \<ge> length line")
  case True
  then show ?thesis by (simp add: extract_value_def span_text_def)
next
  case False
  have "take (min end (length line) - start) (drop start line)
          = map (\<lambda>i. line ! i) [start ..< min end (length line)]"
  proof (rule nth_equalityI)
    show "length (take (min end (length line) - start) (drop start line))
            = length (map (\<lambda>i. line ! i) [start ..< min end (length line)])"
      by simp
  next
    fix i assume "i < length (take (min end (length line) - start) (drop start line))"
    then have i': "i < min end (length line) - start" by simp
    then have i: "start + i < min end (length line)" by arith
    then have u: "[start ..< min end (length line)] ! i = start + i" by (rule nth_upt)
    have "take (min end (length line) - start) (drop start line) ! i = line ! (start + i)"
      using i i' by simp
    moreover have "map (\<lambda>i. line ! i) [start ..< min end (length line)] ! i = line ! (start + i)"
      using i' u by simp
    ultimately show "take (min end (length line) - start) (drop start line) ! i
                 = map (\<lambda>i. line ! i) [start ..< min end (length line)] ! i"
      by simp
  qed
  then show ?thesis using False by (simp add: extract_value_def span_text_def)
qed

lemma takeWhile_blank_prefix:
  assumes "\<forall>c\<in>set a. isspace c" and "m \<noteq> []" and "\<not> isspace (hd m)"
  shows "takeWhile isspace (a @ m @ b) = a"
proof -
  obtain x xs where m: "m = x # xs" using assms(2) by (cases m) auto
  then have "\<not> isspace x" using assms(3) by simp
  then show ?thesis using assms(1) m by (simp add: takeWhile_append2)
qed

text \<open>
  The trimmed text of \<open>s\<close> is the text left when the whitespace at both ends is taken
  away: whenever \<open>s\<close> is whitespace, a text without whitespace at either end, and
  whitespace again, the middle part is the trimmed text.
\<close>

lemma trimmed_text_unique:
  assumes a: "\<forall>c\<in>set a. isspace c" and b: "\<forall>c\<in>set b. isspace c" and m: "trimmed m"
  shows "trimmed_text (a @ m @ b) = m"
proof (cases "m = []")
  case True
  have "takeWhile isspace (a @ b) = a @ b"
    by (rule takeWhile_eq_all_conv [THEN iffD2]) (use a b in auto)
  then have "leading_spaces (a @ b) = length (a @ b)"
    unfolding leading_spaces_def by (simp only:)
  then show ?thesis using True by (simp add: trimmed_text_def)
next
  case False
  then have h: "\<not> isspace (hd m)" and l: "\<not> isspace (last m)"
    using m by (simp_all add: trimmed_def)
  have lead: "leading_spaces (a @ m @ b) = length a"
    unfolding leading_spaces_def by (simp only: takeWhile_blank_prefix [OF a False h])
  have ra: "\<forall>c\<in>set (rev b). isspace c" using b by simp
  have rm: "rev m \<noteq> []" using False by simp
  have "hd (rev m) = last m" using False by (simp add: hd_rev)
  then have hr: "\<not> isspace (hd (rev m))" using l by simp
  have "rev (a @ m @ b) = rev b @ rev m @ rev a" by simp
  then have trail: "trailing_spaces (a @ m @ b) = length b"
    unfolding trailing_spaces_def
    by (simp only: takeWhile_blank_prefix [OF ra rm hr] length_rev)
  show ?thesis
    by (simp add: trimmed_text_def lead trail)
qed

lemma strip_trimmed_text: "strip s = trimmed_text s"
proof -
  let ?a = "takeWhile isspace s"
  obtain tail where tail: "lstrip s = rstrip (lstrip s) @ tail" and sp: "\<forall>c\<in>set tail. isspace c"
    using rstrip_decomp by blast
  have "s = ?a @ lstrip s" by (simp add: lstrip_def)
  then have s: "s = ?a @ strip s @ tail" using tail by (simp add: strip_def)
  have a: "\<forall>c\<in>set ?a. isspace c" by (auto dest: set_takeWhileD)
  have "trimmed_text (?a @ strip s @ tail) = strip s"
    by (rule trimmed_text_unique [OF a sp trimmed_strip])
  then show ?thesis using s by simp
qed

lemma trimmed_text_decomp:
  "\<exists>a b. s = a @ trimmed_text s @ b \<and> is_blank a \<and> is_blank b \<and> trimmed (trimmed_text s)"
proof -
  let ?a = "takeWhile isspace s"
  obtain tail where tail: "lstrip s = rstrip (lstrip s) @ tail" and sp: "\<forall>c\<in>set tail. isspace c"
    using rstrip_decomp by blast
  have "s = ?a @ lstrip s" by (simp add: lstrip_def)
  then have s: "s = ?a @ trimmed_text s @ tail"
    using tail by (simp add: strip_def strip_trimmed_text [symmetric])
  have a: "is_blank ?a" by (auto simp: is_blank_def list_all_iff dest: set_takeWhileD)
  have b: "is_blank tail" using sp by (simp add: is_blank_def list_all_iff)
  have "trimmed (trimmed_text s)" using trimmed_strip [of s] by (simp add: strip_trimmed_text)
  with s a b show ?thesis by blast
qed

lemma header_cell_strip:
  "header_cell lines idx col = strip (extract_value (lines ! idx) (fst col) (snd col))"
  by (simp add: header_cell_def extract_value_span_text strip_trimmed_text)

lemma data_cell_strip:
  "data_cell line col = strip (extract_value line (fst col) (snd col))"
  by (simp add: data_cell_def extract_value_span_text strip_trimmed_text)

section \<open>Separator detection\<close>




lemma is_dash_line_iff_aux:
  assumes "NEWLINE \<notin> set line"
  shows "is_dash_line line \<longleftrightarrow>
           \<not> is_blank line \<and> (\<forall>c\<in>set line. c = DASH \<or> c = SPACE) \<and> DASH \<in> set line"
proof (cases "line = []")
  case True
  then show ?thesis by (simp add: is_dash_line_def)
next
  case False
  then have "last line \<noteq> NEWLINE" using assms last_in_set by metis
  then have "re_match_dashes line \<longleftrightarrow> (\<forall>c\<in>set line. c = DASH \<or> c = SPACE)"
    using False by (simp add: re_match_dashes_def list_all_iff)
  then show ?thesis using False by (auto simp: is_dash_line_def strip_empty_iff)
qed

text \<open>
  Claim C8. A line of the input (it holds no newline, the input being split at newlines)
  is a separator line if and only if it is not blank, each of its characters is a dash
  or a space, and it holds at least one dash.
\<close>

theorem is_dash_line_iff:
  assumes "NEWLINE \<notin> set line"
  shows "is_dash_line line \<longleftrightarrow>
           \<not> is_blank line \<and> (\<forall>c\<in>set line. c = DASH \<or> c = SPACE) \<and> DASH \<in> set line"
  using assms by (rule is_dash_line_iff_aux)

theorem is_dash_line_iff_witness:
  "NEWLINE \<notin> set (ustr ''-- -'') \<and> is_dash_line (ustr ''-- -'')"
proof -
  have h: "NEWLINE \<notin> set (ustr ''-- -'')"
    by (simp add: ustr_def)
  have r: "\<not> is_blank (ustr ''-- -'') \<and> (\<forall>c\<in>set (ustr ''-- -''). c = DASH \<or> c = SPACE)
             \<and> DASH \<in> set (ustr ''-- -'')"
    by (simp add: ustr_def is_blank_def isspace_def)
  from is_dash_line_iff [OF h] r have "is_dash_line (ustr ''-- -'')" by blast
  with h show ?thesis by blast
qed

section \<open>Results and errors\<close>

lemma and_then_Inr [simp]: "and_then (Inr v) f = f v"
  by (simp add: and_then_def)

lemma and_then_Inl [simp]: "and_then (Inl e) f = Inl e"
  by (simp add: and_then_def)

lemma nth_py_Inr [simp]: "i < length xs \<Longrightarrow> nth_py xs i = Inr (xs ! i)"
  by (simp add: nth_py_def)

lemma traverse_Inr:
  "(\<And>x. x \<in> set xs \<Longrightarrow> f x = Inr (g x)) \<Longrightarrow> traverse f xs = Inr (map g xs)"
  by (induction xs) simp_all

lemma column_of_Inr:
  "(\<And>row. row \<in> set rows \<Longrightarrow> c < length row) \<Longrightarrow>
     column_of rows c = Inr (map (\<lambda>row. row ! c) rows)"
  unfolding column_of_def by (rule traverse_Inr) simp

section \<open>Justification detection\<close>

lemma length_lstrip: "length val - length (lstrip val) = leading_spaces val"
proof -
  have "length (takeWhile isspace val) + length (dropWhile isspace val) = length val"
    by (metis length_append takeWhile_dropWhile_id)
  then show ?thesis by (simp add: lstrip_def leading_spaces_def)
qed

lemma length_rstrip: "length val - length (rstrip val) = trailing_spaces val"
proof -
  have "length (takeWhile isspace (rev val)) + length (dropWhile isspace (rev val))
          = length (rev val)"
    by (metis length_append takeWhile_dropWhile_id)
  then show ?thesis by (simp add: rstrip_def trailing_spaces_def)
qed

lemma detect_justification_Cons:
  "detect_justification (val # rest) =
     (case signal val of None \<Rightarrow> detect_justification rest | Some j \<Rightarrow> j)"
  by (simp add: signal_def length_lstrip length_rstrip strip_empty_iff Let_def)

lemma detect_justification_first_signal: "detect_justification cells = first_signal cells"
proof (induction cells)
  case Nil
  show ?case by (simp add: first_signal_def List.map_filter_simps)
next
  case (Cons val rest)
  show ?case
  proof (cases "signal val")
    case None
    then show ?thesis
      using Cons
      by (simp add: detect_justification_Cons first_signal_def List.map_filter_simps
            del: detect_justification.simps)
  next
    case (Some j)
    then show ?thesis
      by (simp add: detect_justification_Cons first_signal_def List.map_filter_simps
            del: detect_justification.simps)
  qed
qed

lemma first_signal_append:
  "(\<forall>v\<in>set pre. signal v = None) \<Longrightarrow> first_signal (pre @ cells) = first_signal cells"
  by (induction pre) (simp_all add: first_signal_def List.map_filter_simps)

lemma first_signal_none:
  "(\<forall>v\<in>set cells. signal v = None) \<Longrightarrow> first_signal cells = JLeft"
  using first_signal_append [of cells "[]"] by (simp add: first_signal_def List.map_filter_simps)

lemma first_signal_Cons_Some: "signal v = Some j \<Longrightarrow> first_signal (v # post) = j"
  by (simp add: first_signal_def List.map_filter_simps)

lemma column_justifications_Inr:
  assumes "\<And>row. row \<in> set raw_values \<Longrightarrow> length row = length columns"
  shows "column_justifications raw_values columns =
           Inr (map (\<lambda>c. detect_justification (map (\<lambda>row. row ! c) raw_values))
                  [0 ..< length columns])"
  unfolding column_justifications_def
  by (rule traverse_Inr) (simp add: column_of_Inr assms)

text \<open>
  Claim C4. For column \<open>c\<close> of a table, the justification that \<open>process_table\<close> detects
  from the raw (untrimmed) cells of the data lines is the first signal in row order:
  cells that are blank after trimming give no signal, padding on the left only gives
  \<open>right\<close>, padding on the right only gives \<open>left\<close>, more padding on the left than on
  the right gives \<open>right\<close>. The cells before the first signal and the cells after it do
  not change the decision, and the result is \<open>left\<close> when no cell gives a signal.
\<close>

theorem justification_first_signal:
  assumes "c < length columns"
    and "cells = map (\<lambda>line. extract_value line (fst (columns ! c)) (snd (columns ! c))) data_lines"
  shows "\<exists>js. column_justifications
                (map (\<lambda>line. map (\<lambda>(start, end). extract_value line start end) columns) data_lines)
                columns = Inr js \<and>
              length js = length columns \<and>
              js ! c = first_signal cells \<and>
              (\<forall>pre v post j. cells = pre @ v # post \<and> (\<forall>u\<in>set pre. signal u = None) \<and>
                   signal v = Some j \<longrightarrow> js ! c = j) \<and>
              ((\<forall>u\<in>set cells. signal u = None) \<longrightarrow> js ! c = JLeft)"
proof -
  let ?raw = "map (\<lambda>line. map (\<lambda>(start, end). extract_value line start end) columns) data_lines"
  let ?js = "map (\<lambda>c. detect_justification (map (\<lambda>row. row ! c) ?raw)) [0 ..< length columns]"
  have len: "\<And>row. row \<in> set ?raw \<Longrightarrow> length row = length columns"
    by auto
  have col: "map (\<lambda>row. row ! c) ?raw = cells"
    using assms by (simp add: case_prod_unfold)
  have run: "column_justifications ?raw columns = Inr ?js"
    by (rule column_justifications_Inr [OF len])
  have at: "?js ! c = first_signal cells"
    using assms(1) col by (simp add: detect_justification_first_signal)
  have first: "\<forall>pre v post j. cells = pre @ v # post \<and> (\<forall>u\<in>set pre. signal u = None) \<and>
                 signal v = Some j \<longrightarrow> first_signal cells = j"
    by (auto simp: first_signal_append first_signal_Cons_Some)
  have none: "(\<forall>u\<in>set cells. signal u = None) \<longrightarrow> first_signal cells = JLeft"
    by (simp add: first_signal_none)
  show ?thesis
    using run at first none by (intro exI [of _ ?js]) simp
qed

theorem justification_first_signal_witness:
  "\<exists>js. column_justifications
          (map (\<lambda>line. map (\<lambda>(start, end). extract_value line start end) [(0, 4), (5, 8)])
             [ustr ''ab    12'', ustr ''abcd 345''])
          [(0, 4), (5, 8)] = Inr js \<and> js ! 1 = JRight \<and> js ! 0 = JLeft"
proof -
  let ?columns = "[(0, 4), (5, 8)] :: (nat \<times> nat) list"
  let ?data = "[ustr ''ab    12'', ustr ''abcd 345'']"
  have s1: "first_signal (map (\<lambda>line. extract_value line (fst (?columns ! 1)) (snd (?columns ! 1))) ?data)
              = JRight"
    by (simp add: first_signal_def List.map_filter_simps signal_def is_blank_def
          leading_spaces_def trailing_spaces_def extract_value_def ustr_def isspace_def)
  have s0: "first_signal (map (\<lambda>line. extract_value line (fst (?columns ! 0)) (snd (?columns ! 0))) ?data)
              = JLeft"
    by (simp add: first_signal_def List.map_filter_simps signal_def is_blank_def
          leading_spaces_def trailing_spaces_def extract_value_def ustr_def isspace_def)
  from justification_first_signal [of 1 ?columns _ ?data, OF _ refl]
  obtain js where a: "column_justifications
          (map (\<lambda>line. map (\<lambda>(start, end). extract_value line start end) ?columns) ?data)
          ?columns = Inr js"
      and b: "js ! 1 = first_signal (map (\<lambda>line. extract_value line (fst (?columns ! 1)) (snd (?columns ! 1))) ?data)"
    by auto
  from justification_first_signal [of 0 ?columns _ ?data, OF _ refl]
  obtain js' where a': "column_justifications
          (map (\<lambda>line. map (\<lambda>(start, end). extract_value line start end) ?columns) ?data)
          ?columns = Inr js'"
      and b': "js' ! 0 = first_signal (map (\<lambda>line. extract_value line (fst (?columns ! 0)) (snd (?columns ! 0))) ?data)"
    by auto
  from a a' have "js' = js" by simp
  with a b b' s0 s1 show ?thesis by auto
qed

section \<open>Header collection\<close>

lemma find_gaps_Inr: "find_gaps columns = Inr (gap_spans columns)"
proof -
  let ?g = "\<lambda>i. (snd (columns ! i), fst (columns ! (i + 1)))"
  have "find_gaps columns = Inr (map ?g [0 ..< length columns - 1])"
    unfolding find_gaps_def by (rule traverse_Inr) auto
  moreover have "map ?g [0 ..< length columns - 1] = gap_spans columns"
    by (rule nth_equalityI) (auto simp: gap_spans_def nth_butlast nth_tl)
  ultimately show ?thesis by simp
qed

lemma is_valid_header_line_iff:
  "is_valid_header_line line columns gaps \<longleftrightarrow>
     (\<forall>(gap_start, gap_end)\<in>set gaps. \<forall>pos\<in>{gap_start ..< gap_end}.
        pos < length line \<longrightarrow> line ! pos = SPACE)"
  by (auto simp: is_valid_header_line_def list_all_iff)

lemma collect_header_loop_char:
  "n \<le> length lines \<Longrightarrow>
   \<exists>k\<le>n. collect_header_loop lines columns gaps n acc = Inr (acc @ rev [k ..< n]) \<and>
          (\<forall>i\<in>{k ..< n}. acceptable_header (lines ! i) gaps) \<and>
          (k = 0 \<or> \<not> acceptable_header (lines ! (k - 1)) gaps)"
proof (induction n arbitrary: acc)
  case 0
  then show ?case by simp
next
  case (Suc n)
  show ?case
  proof (cases "acceptable_header (lines ! n) gaps")
    case False
    then have "collect_header_loop lines columns gaps (Suc n) acc = Inr acc"
      using Suc.prems
      by (auto simp: acceptable_header_def strip_empty_iff is_valid_header_line_iff)
    then show ?thesis using False by (intro exI [of _ "Suc n"]) simp
  next
    case True
    then have step: "collect_header_loop lines columns gaps (Suc n) acc =
        collect_header_loop lines columns gaps n (acc @ [n])"
      using Suc.prems
      by (auto simp: acceptable_header_def strip_empty_iff is_valid_header_line_iff)
    from Suc.IH [of "acc @ [n]"] Suc.prems
    obtain k where k: "k \<le> n"
      "collect_header_loop lines columns gaps n (acc @ [n]) = Inr ((acc @ [n]) @ rev [k ..< n])"
      "\<forall>i\<in>{k ..< n}. acceptable_header (lines ! i) gaps"
      "k = 0 \<or> \<not> acceptable_header (lines ! (k - 1)) gaps"
      by auto
    have "\<forall>i\<in>{k ..< Suc n}. acceptable_header (lines ! i) gaps"
      using k(3) True by (auto simp: less_Suc_eq)
    then show ?thesis
      using k step by (intro exI [of _ k]) simp
  qed
qed

lemma collect_header_lines_char:
  assumes "d \<le> length lines"
  shows "\<exists>k\<le>d. collect_header_lines lines d columns = Inr [k ..< d] \<and>
          (\<forall>i\<in>{k ..< d}. acceptable_header (lines ! i) (gap_spans columns)) \<and>
          (k = 0 \<or> \<not> acceptable_header (lines ! (k - 1)) (gap_spans columns))"
proof -
  from collect_header_loop_char [OF assms, of columns "gap_spans columns" "[]"]
  obtain k where k: "k \<le> d"
    "collect_header_loop lines columns (gap_spans columns) d [] = Inr ([] @ rev [k ..< d])"
    "\<forall>i\<in>{k ..< d}. acceptable_header (lines ! i) (gap_spans columns)"
    "k = 0 \<or> \<not> acceptable_header (lines ! (k - 1)) (gap_spans columns)"
    by blast
  have "collect_header_lines lines d columns = Inr [k ..< d]"
    using k(2) by (simp add: collect_header_lines_def find_gaps_Inr)
  with k show ?thesis by blast
qed

lemma collect_header_lines_members:
  assumes "d \<le> length lines"
  shows "\<exists>hs. collect_header_lines lines d columns = Inr hs \<and> sorted_wrt (<) hs \<and>
           (\<forall>i. i \<in> set hs \<longleftrightarrow>
                i < d \<and> (\<forall>m\<in>{i ..< d}. acceptable_header (lines ! m) (gap_spans columns)))"
proof -
  from collect_header_lines_char [OF assms, of columns]
  obtain k where k: "k \<le> d" "collect_header_lines lines d columns = Inr [k ..< d]"
    "\<forall>i\<in>{k ..< d}. acceptable_header (lines ! i) (gap_spans columns)"
    "k = 0 \<or> \<not> acceptable_header (lines ! (k - 1)) (gap_spans columns)"
    by blast
  have "i \<in> set [k ..< d] \<longleftrightarrow>
          i < d \<and> (\<forall>m\<in>{i ..< d}. acceptable_header (lines ! m) (gap_spans columns))" for i
  proof
    assume "i \<in> set [k ..< d]"
    then show "i < d \<and> (\<forall>m\<in>{i ..< d}. acceptable_header (lines ! m) (gap_spans columns))"
      using k(3) by auto
  next
    assume a: "i < d \<and> (\<forall>m\<in>{i ..< d}. acceptable_header (lines ! m) (gap_spans columns))"
    have "k \<le> i"
    proof (rule ccontr)
      assume "\<not> k \<le> i"
      then have "0 < k" "k - 1 \<in> {i ..< d}" using k(1) by auto
      then show False using a k(4) by blast
    qed
    then show "i \<in> set [k ..< d]" using a by simp
  qed
  then show ?thesis using k(2) by (intro exI [of _ "[k ..< d]"]) simp
qed

lemma ball_upt: "(\<forall>m\<in>{i ..< j}. P m) \<longleftrightarrow> list_all P [i ..< j]"
  by (simp add: list_all_iff)

text \<open>
  Claim C7. Header collection above the separator at \<open>dash_line_idx\<close> succeeds, and it
  accepts line \<open>i\<close> if and only if \<open>i\<close> and every line between it and the separator
  is not blank and has a space at every position of every gap span within its length:
  the walk upward stops at the first line that fails the test, or at the start of the
  input. The accepted indices are returned in increasing (top-to-bottom) order.
\<close>

theorem header_lines_accepted:
  assumes "dash_line_idx < length lines"
  shows "\<exists>hs. collect_header_lines lines dash_line_idx columns = Inr hs \<and> sorted_wrt (<) hs \<and>
           (\<forall>i. i \<in> set hs \<longleftrightarrow>
                i < dash_line_idx \<and>
                (\<forall>m\<in>{i ..< dash_line_idx}. acceptable_header (lines ! m) (gap_spans columns)))"
  using assms by (intro collect_header_lines_members) simp

theorem header_lines_accepted_witness:
  "\<exists>hs. collect_header_lines [ustr ''xx|yy'', ustr ''AB CD'', ustr ''-- --'', ustr ''1  2''] 2
           [(0, 2), (3, 5)] = Inr hs \<and> 1 \<in> set hs \<and> 0 \<notin> set hs"
proof -
  let ?lines = "[ustr ''xx|yy'', ustr ''AB CD'', ustr ''-- --'', ustr ''1  2'']"
  let ?columns = "[(0, 2), (3, 5)] :: (nat \<times> nat) list"
  have len: "2 < length ?lines" by simp
  have a1: "acceptable_header (?lines ! 1) (gap_spans ?columns)"
    by (simp add: acceptable_header_def gap_spans_def is_blank_def ustr_def isspace_def ball_upt)
  have a0: "\<not> acceptable_header (?lines ! 0) (gap_spans ?columns)"
    by (simp add: acceptable_header_def gap_spans_def is_blank_def ustr_def isspace_def ball_upt)
  from header_lines_accepted [OF len, of ?columns]
  obtain hs where run: "collect_header_lines ?lines 2 ?columns = Inr hs"
    and mem: "\<And>i. i \<in> set hs \<longleftrightarrow>
                i < 2 \<and> (\<forall>m\<in>{i ..< 2}. acceptable_header (?lines ! m) (gap_spans ?columns))"
    by blast
  have "1 \<in> set hs" using mem [of 1] a1 by (simp add: ball_upt upt_conv_Cons)
  moreover have "0 \<notin> set hs" using mem [of 0] a0 by (simp add: ball_upt upt_conv_Cons)
  ultimately show ?thesis using run by blast
qed

lemma gap_spans_single: "length columns = 1 \<Longrightarrow> gap_spans columns = []"
  by (cases columns) (simp_all add: gap_spans_def)

text \<open>
  Claim C10. When the separator line has exactly one column span there is no gap span,
  every line passes \<open>is_valid_header_line\<close>, and header collection takes exactly the
  run of non-blank lines directly above the separator, whatever they hold, up to the
  first blank line or the start of the input.
\<close>

theorem single_column_headers:
  assumes "dash_line_idx < length lines"
    and "length (find_columns (lines ! dash_line_idx)) = 1"
  shows "find_gaps (find_columns (lines ! dash_line_idx)) = Inr [] \<and>
         (\<forall>line. is_valid_header_line line (find_columns (lines ! dash_line_idx)) []) \<and>
         (\<exists>hs. collect_header_lines lines dash_line_idx (find_columns (lines ! dash_line_idx)) = Inr hs \<and>
            sorted_wrt (<) hs \<and>
            (\<forall>i. i \<in> set hs \<longleftrightarrow>
                 i < dash_line_idx \<and> (\<forall>m\<in>{i ..< dash_line_idx}. \<not> is_blank (lines ! m))))"
proof -
  let ?columns = "find_columns (lines ! dash_line_idx)"
  have g: "gap_spans ?columns = []" using assms(2) by (rule gap_spans_single)
  have le: "dash_line_idx \<le> length lines" using assms(1) by simp
  have "\<And>line. acceptable_header line [] \<longleftrightarrow> \<not> is_blank line"
    by (simp add: acceptable_header_def)
  then show ?thesis
    using collect_header_lines_members [OF le, of ?columns] g
    by (simp add: find_gaps_Inr is_valid_header_line_def)
qed

lemma find_columns_ex1: "find_columns (ustr ''---'') = [(0, 3)]"
  by code_simp

theorem single_column_headers_witness:
  "\<exists>hs. collect_header_lines [ustr ''a'', [], ustr ''!@ #$'', ustr ''x-y-z'', ustr ''---''] 4
           (find_columns (ustr ''---'')) = Inr hs \<and> 2 \<in> set hs \<and> 3 \<in> set hs \<and> 1 \<notin> set hs \<and> 0 \<notin> set hs"
proof -
  let ?lines = "[ustr ''a'', [], ustr ''!@ #$'', ustr ''x-y-z'', ustr ''---'']"
  have len: "4 < length ?lines" by simp
  have one: "length (find_columns (?lines ! 4)) = 1" by (simp add: find_columns_ex1)
  have b: "\<not> is_blank (?lines ! 2)" "\<not> is_blank (?lines ! 3)" "is_blank (?lines ! 1)"
    by (simp_all add: is_blank_def ustr_def isspace_def)
  from single_column_headers [OF len one]
  obtain hs where run: "collect_header_lines ?lines 4 (find_columns (?lines ! 4)) = Inr hs"
    and mem: "\<And>i. i \<in> set hs \<longleftrightarrow> i < 4 \<and> (\<forall>m\<in>{i ..< 4}. \<not> is_blank (?lines ! m))"
    by blast
  have "3 \<in> set hs" using mem [of 3] b by (simp add: ball_upt upt_conv_Cons)
  moreover have "2 \<in> set hs" using mem [of 2] b by (simp add: ball_upt upt_conv_Cons)
  moreover have "1 \<notin> set hs" using mem [of 1] b by (simp add: ball_upt upt_conv_Cons)
  moreover have "0 \<notin> set hs" using mem [of 0] b by (simp add: ball_upt upt_conv_Cons)
  ultimately show ?thesis using run by simp
qed

section \<open>The rendering of a table\<close>

lemma max_default_Max: "max_default xs 0 = Max (insert 0 (set xs))"
proof (cases xs)
  case Nil
  then show ?thesis by (simp add: max_default_def)
next
  case (Cons y ys)
  have "fold max ys y = Max (set (y # ys))" using Max.set_eq_fold [of y ys] by simp
  also have "\<dots> = Max (insert 0 (set (y # ys)))" by (simp add: max_def)
  finally show ?thesis using Cons by (simp add: max_default_def)
qed

lemma map_nth_upt: "map (\<lambda>i. f (xs ! i)) [0 ..< length xs] = map f xs"
  by (rule nth_equalityI) simp_all

lemma extract_multiline_headers_Inr:
  assumes "\<forall>idx\<in>set header_indices. idx < length lines"
  shows "extract_multiline_headers lines header_indices columns =
           Inr (map (\<lambda>col. map (\<lambda>idx. header_cell lines idx col) header_indices) columns)"
  unfolding extract_multiline_headers_def
proof (rule traverse_Inr)
  fix col :: "nat \<times> nat"
  assume "col \<in> set columns"
  have "traverse (\<lambda>idx. and_then (nth_py lines idx) (\<lambda>line.
            Inr (strip (extract_value line (fst col) (snd col))))) header_indices
        = Inr (map (\<lambda>idx. header_cell lines idx col) header_indices)"
    by (rule traverse_Inr) (use assms in \<open>simp add: header_cell_strip\<close>)
  then show "(case col of (start, end) \<Rightarrow>
           traverse (\<lambda>idx. and_then (nth_py lines idx) (\<lambda>line.
               Inr (strip (extract_value line start end)))) header_indices)
        = Inr (map (\<lambda>idx. header_cell lines idx col) header_indices)"
    by (simp add: case_prod_unfold)
qed

lemma column_widths_Inr:
  assumes hts: "header_texts = map (\<lambda>col. map (\<lambda>idx. header_cell lines idx col) header_indices) columns"
    and sv: "stripped_values = map (\<lambda>line. map (data_cell line) columns) data_lines"
  shows "column_widths header_texts stripped_values columns =
           Inr (map (spec_width lines header_indices data_lines) columns)"
proof -
  have "column_widths header_texts stripped_values columns =
          Inr (map (\<lambda>c. spec_width lines header_indices data_lines (columns ! c)) [0 ..< length columns])"
    unfolding column_widths_def
  proof (rule traverse_Inr)
    fix c assume "c \<in> set [0 ..< length columns]"
    then have c: "c < length columns" by simp
    have rows: "\<And>row. row \<in> set stripped_values \<Longrightarrow> c < length row"
      using c sv by auto
    have col: "map (\<lambda>row. row ! c) stripped_values = map (\<lambda>line. data_cell line (columns ! c)) data_lines"
      using c sv by simp
    have "max (max_default (map length (header_texts ! c)) 0)
              (max_default (map length (map (\<lambda>row. row ! c) stripped_values)) 0)
          = spec_width lines header_indices data_lines (columns ! c)"
    proof -
      let ?H = "(\<lambda>idx. length (header_cell lines idx (columns ! c))) ` set header_indices"
      let ?D = "(\<lambda>line. length (data_cell line (columns ! c))) ` set data_lines"
      have "max (Max (insert 0 ?H)) (Max (insert 0 ?D)) = Max (insert 0 ?H \<union> insert 0 ?D)"
        by (rule Max_Un [symmetric]) simp_all
      also have "insert 0 ?H \<union> insert 0 ?D = insert 0 (?H \<union> ?D)" by auto
      finally show ?thesis
        using c hts by (simp add: col max_default_Max spec_width_def image_image)
    qed
    then show "and_then (nth_py header_texts c) (\<lambda>col_texts.
        and_then (column_of stripped_values c) (\<lambda>col_vals.
          let max_header_line_len = max_default (map length col_texts) 0;
              max_val_len = max_default (map length col_vals) 0
          in Inr (max max_header_line_len max_val_len)))
        = Inr (spec_width lines header_indices data_lines (columns ! c))"
      using c hts by (simp add: column_of_Inr [OF rows] Let_def)
  qed
  then show ?thesis by (simp add: map_nth_upt)
qed


lemma zip_upt_map: "length ys = length xs \<Longrightarrow>
   map (\<lambda>i. f (xs ! i) (ys ! i)) [0 ..< length xs] = map (\<lambda>(x, y). f x y) (zip xs ys)"
  by (rule nth_equalityI) simp_all

lemma format_header_Inr:
  assumes hts: "header_texts = map (\<lambda>col. map (\<lambda>idx. header_cell lines idx col) header_indices) columns"
    and len: "length widths = length columns"
    and li: "line_idx < length header_indices"
  shows "format_header header_texts widths columns line_idx =
           Inr (render_header lines columns widths (header_indices ! line_idx))"
proof -
  have "traverse (\<lambda>col_idx.
          and_then (nth_py header_texts col_idx) (\<lambda>col_texts.
          and_then (nth_py col_texts line_idx) (\<lambda>text.
          and_then (nth_py widths col_idx) (\<lambda>w.
            Inr (ljust text w)))))
          [0 ..< length columns]
        = Inr (map (\<lambda>c. ljust (header_cell lines (header_indices ! line_idx) (columns ! c)) (widths ! c))
                 [0 ..< length columns])"
    by (rule traverse_Inr) (use hts len li in simp)
  also have "map (\<lambda>c. ljust (header_cell lines (header_indices ! line_idx) (columns ! c)) (widths ! c))
                 [0 ..< length columns]
             = map (\<lambda>(col, w). ljust (header_cell lines (header_indices ! line_idx) col) w)
                 (zip columns widths)"
    using len by (rule zip_upt_map)
  finally show ?thesis by (simp add: format_header_def render_header_def)
qed

lemma format_headers_Inr:
  assumes hts: "header_texts = map (\<lambda>col. map (\<lambda>idx. header_cell lines idx col) header_indices) columns"
    and len: "length widths = length columns"
  shows "traverse (format_header header_texts widths columns) [0 ..< length header_indices] =
           Inr (map (render_header lines columns widths) header_indices)"
proof -
  have "traverse (format_header header_texts widths columns) [0 ..< length header_indices] =
          Inr (map (\<lambda>i. render_header lines columns widths (header_indices ! i))
                 [0 ..< length header_indices])"
    by (rule traverse_Inr) (simp add: format_header_Inr [OF hts len])
  then show ?thesis by (simp add: map_nth_upt)
qed

lemma format_row_Inr:
  assumes "length justifications = length columns" "length widths = length columns"
  shows "format_row justifications widths (map (data_cell line) columns) =
           Inr (render_data columns justifications widths line)"
proof -
  let ?row = "map (data_cell line) columns"
  let ?g = "\<lambda>(i, val). if justifications ! i = JRight then rjust val (widths ! i)
                          else ljust val (widths ! i)"
  have "traverse (\<lambda>(i, val).
          and_then (nth_py justifications i) (\<lambda>j.
          and_then (nth_py widths i) (\<lambda>w.
            Inr (if j = JRight then rjust val w else ljust val w))))
          (zip [0 ..< length ?row] ?row)
        = Inr (map ?g (zip [0 ..< length ?row] ?row))"
    by (rule traverse_Inr) (use assms in \<open>auto simp: set_zip\<close>)
  moreover have "map ?g (zip [0 ..< length ?row] ?row) =
      map (\<lambda>(col, j, w). if j = JRight then rjust (data_cell line col) w
                           else ljust (data_cell line col) w)
        (zip columns (zip justifications widths))"
    by (rule nth_equalityI) (use assms in simp_all)
  ultimately show ?thesis by (simp add: format_row_def render_data_def)
qed

lemma dash_parts_Inr:
  assumes "length widths = length columns"
  shows "traverse (\<lambda>i. and_then (nth_py widths i) (\<lambda>w. Inr (replicate w DASH))) [0 ..< length columns]
           = Inr (map (\<lambda>w. replicate w DASH) widths)"
proof -
  have "traverse (\<lambda>i. and_then (nth_py widths i) (\<lambda>w. Inr (replicate w DASH))) [0 ..< length columns]
           = Inr (map (\<lambda>i. replicate (widths ! i) DASH) [0 ..< length columns])"
    by (rule traverse_Inr) (use assms in simp)
  then show ?thesis using map_nth_upt [of "\<lambda>w. replicate w DASH" widths] assms by simp
qed

lemma process_table_Inr:
  assumes "\<forall>idx\<in>set header_indices. idx < length lines"
  shows "process_table lines header_indices dash_line_idx data_lines columns =
           Inr (render_table lines header_indices data_lines columns)"
proof -
  let ?hts = "map (\<lambda>col. map (\<lambda>idx. header_cell lines idx col) header_indices) columns"
  let ?raw = "map (\<lambda>line. map (\<lambda>(start, end). extract_value line start end) columns) data_lines"
  let ?sv = "map (map strip) ?raw"
  let ?ws = "map (spec_width lines header_indices data_lines) columns"
  let ?js = "map (column_signal data_lines) columns"
  have sv: "?sv = map (\<lambda>line. map (data_cell line) columns) data_lines"
    by (simp add: data_cell_strip case_prod_unfold)
  have h: "extract_multiline_headers lines header_indices columns = Inr ?hts"
    by (rule extract_multiline_headers_Inr [OF assms])
  have "column_justifications ?raw columns =
          Inr (map (\<lambda>c. detect_justification (map (\<lambda>row. row ! c) ?raw)) [0 ..< length columns])"
    by (rule column_justifications_Inr) auto
  moreover have "map (\<lambda>c. detect_justification (map (\<lambda>row. row ! c) ?raw)) [0 ..< length columns] = ?js"
    by (rule nth_equalityI)
       (simp_all add: column_signal_def detect_justification_first_signal case_prod_unfold comp_def)
  ultimately have j: "column_justifications ?raw columns = Inr ?js" by simp
  have w: "column_widths ?hts ?sv columns = Inr ?ws"
    by (rule column_widths_Inr [OF refl sv])
  have ho: "traverse (format_header ?hts ?ws columns) [0 ..< length header_indices] =
              Inr (map (render_header lines columns ?ws) header_indices)"
    by (rule format_headers_Inr [OF refl]) simp
  have dp: "traverse (\<lambda>i. and_then (nth_py ?ws i) (\<lambda>w. Inr (replicate w DASH))) [0 ..< length columns]
              = Inr (map (\<lambda>w. replicate w DASH) ?ws)"
    by (rule dash_parts_Inr) simp
  have dr: "traverse (format_row ?js ?ws) ?sv = Inr (map (render_data columns ?js ?ws) data_lines)"
  proof -
    have "traverse (\<lambda>line. format_row ?js ?ws (map (data_cell line) columns)) data_lines
            = Inr (map (render_data columns ?js ?ws) data_lines)"
      by (rule traverse_Inr) (simp add: format_row_Inr)
    moreover have "traverse f (map g xs) = traverse (\<lambda>x. f (g x)) xs" for f :: "pystr list \<Rightarrow> py_error + pystr" and g :: "pystr \<Rightarrow> pystr list" and xs
      by (induction xs) simp_all
    ultimately show ?thesis unfolding sv by simp
  qed
  show ?thesis
    unfolding process_table_def Let_def h and_then_Inr j w ho dp dr
    by (simp add: render_table_def Let_def render_dash_def)
qed

lemma format_header_only_Inr:
  assumes "\<forall>idx\<in>set header_indices. idx < length lines"
  shows "format_header_only lines header_indices columns =
           Inr (render_header_only lines header_indices columns)"
proof -
  let ?hts = "map (\<lambda>col. map (\<lambda>idx. header_cell lines idx col) header_indices) columns"
  let ?ws = "map (spec_width lines header_indices []) columns"
  have h: "extract_multiline_headers lines header_indices columns = Inr ?hts"
    by (rule extract_multiline_headers_Inr [OF assms])
  have w: "map (\<lambda>col_texts. max_default (map length col_texts) 0) ?hts = ?ws"
    by (simp add: max_default_Max spec_width_def image_image)
  have ho: "traverse (format_header ?hts ?ws columns) [0 ..< length header_indices] =
              Inr (map (render_header lines columns ?ws) header_indices)"
    by (rule format_headers_Inr [OF refl]) simp
  show ?thesis
    unfolding format_header_only_def Let_def h and_then_Inr w ho
    by (simp add: render_header_only_def Let_def render_dash_def)
qed

section \<open>Column widths\<close>

lemma spec_width_ge_header:
  "idx \<in> set header_indices \<Longrightarrow>
     length (header_cell lines idx col) \<le> spec_width lines header_indices data_lines col"
  unfolding spec_width_def by (rule Max_ge) auto

lemma spec_width_ge_data:
  "line \<in> set data_lines \<Longrightarrow>
     length (data_cell line col) \<le> spec_width lines header_indices data_lines col"
  unfolding spec_width_def by (rule Max_ge) auto

lemma spec_width_attained:
  "spec_width lines header_indices data_lines col = 0 \<or>
   (\<exists>idx\<in>set header_indices. length (header_cell lines idx col)
        = spec_width lines header_indices data_lines col) \<or>
   (\<exists>line\<in>set data_lines. length (data_cell line col)
        = spec_width lines header_indices data_lines col)"
proof -
  let ?S = "insert 0 ((\<lambda>idx. length (header_cell lines idx col)) ` set header_indices \<union>
                    (\<lambda>line. length (data_cell line col)) ` set data_lines)"
  have "Max ?S \<in> ?S" by (rule Max_in) auto
  then show ?thesis unfolding spec_width_def by auto
qed

text \<open>
  Claim C5, amended. A cell is the trimmed text of a line inside a column span of the
  separator line. For every table, with or without data lines, and every column, the
  rendered width (the run of dashes of the separator, and the width to which every cell
  of the column is padded) is the largest length among the header cells and the data
  cells of the column, 0 when there is none: every cell fits in it, and when it is not 0
  some cell has exactly that length. Text of a line outside every span belongs to no
  cell.
\<close>

theorem column_width_is_max:
  assumes "\<forall>idx\<in>set header_indices. idx < length lines"
  shows "process_table lines header_indices dash_line_idx data_lines columns =
           Inr (map (render_header lines columns
                       (map (spec_width lines header_indices data_lines) columns)) header_indices @
                [render_dash (map (spec_width lines header_indices data_lines) columns)] @
                map (render_data columns (map (column_signal data_lines) columns)
                       (map (spec_width lines header_indices data_lines) columns)) data_lines) \<and>
         format_header_only lines header_indices columns =
           Inr (map (render_header lines columns
                       (map (spec_width lines header_indices []) columns)) header_indices @
                [render_dash (map (spec_width lines header_indices []) columns)]) \<and>
         (\<forall>col. (\<forall>idx\<in>set header_indices.
                   length (header_cell lines idx col) \<le> spec_width lines header_indices data_lines col) \<and>
                (\<forall>line\<in>set data_lines.
                   length (data_cell line col) \<le> spec_width lines header_indices data_lines col) \<and>
                (spec_width lines header_indices data_lines col = 0 \<or>
                 (\<exists>idx\<in>set header_indices. length (header_cell lines idx col)
                      = spec_width lines header_indices data_lines col) \<or>
                 (\<exists>line\<in>set data_lines. length (data_cell line col)
                      = spec_width lines header_indices data_lines col)))"
  using process_table_Inr [OF assms, of dash_line_idx data_lines columns]
    format_header_only_Inr [OF assms, of columns]
    spec_width_attained [of lines header_indices data_lines]
  by (simp add: render_table_def render_header_only_def Let_def
        spec_width_ge_header spec_width_ge_data)

section \<open>Totality\<close>

lemma collect_header_lines_range:
  assumes "d \<le> length lines"
  shows "\<exists>hs. collect_header_lines lines d columns = Inr hs \<and> (\<forall>idx\<in>set hs. idx < d)"
  using collect_header_lines_char [OF assms, of columns] by auto

lemma table_step_Inr:
  assumes "\<forall>idx\<in>set header_indices. idx < length lines" and "header_indices \<noteq> []"
  shows "table_step lines header_indices dash_line_idx data_lines j columns st =
           Inr (if data_lines \<noteq> [] then
                  st\<lparr>consumed := consumed st \<union> set header_indices \<union> {dash_line_idx}
                                    \<union> set [dash_line_idx + 1 ..< j],
                     output_map := (output_map st)(header_indices ! 0 \<mapsto>
                        render_table lines header_indices data_lines columns)\<rparr>
                else
                  st\<lparr>consumed := consumed st \<union> set header_indices \<union> {dash_line_idx},
                     output_map := (output_map st)(header_indices ! 0 \<mapsto>
                        render_header_only lines header_indices columns)\<rparr>)"
  using assms
  by (simp add: table_step_def process_table_Inr format_header_only_Inr Let_def)

lemma main_loop_total: "\<exists>st'. main_loop lines i st = Inr st'"
proof (induction lines i st rule: main_loop.induct)
  case (1 lines i st)
  show ?case
  proof (cases "i < length lines")
    case False
    then show ?thesis by (subst main_loop.simps) simp
  next
    case in_range: True
    show ?thesis
    proof (cases "is_dash_line (lines ! i)")
      case False
      then show ?thesis
        using in_range "1.IH"(3) by (subst main_loop.simps) simp
    next
      case dash: True
      from collect_header_lines_range [of i lines "find_columns (lines ! i)"] in_range
      obtain hs where hs: "collect_header_lines lines i (find_columns (lines ! i)) = Inr hs"
        and range: "\<forall>idx\<in>set hs. idx < i"
        by auto
      show ?thesis
      proof (cases "hs = []")
        case True
        then show ?thesis
          using in_range dash hs "1.IH"(1) by (subst main_loop.simps) simp
      next
        case False
        have "\<forall>idx\<in>set hs. idx < length lines" using range in_range by auto
        from table_step_Inr [OF this False]
        obtain st' where st': "table_step lines hs i
                          (fst (collect_data_lines lines (i + 1) []))
                          (snd (collect_data_lines lines (i + 1) []))
                          (find_columns (lines ! i)) st = Inr st'"
          by blast
        from "1.IH"(2) [OF in_range dash hs False st']
        show ?thesis
          using in_range dash hs False st' by (subst main_loop.simps) simp
      qed
    qed
  qed
qed

lemma transform_total: "\<exists>out. transform lines = Inr out"
proof -
  obtain st' where "main_loop lines 0 \<lparr>consumed = {}, output_map = Map.empty, printed = []\<rparr> = Inr st'"
    using main_loop_total by blast
  then show ?thesis by (simp add: transform_def)
qed

text \<open>
  Claim C9. The filter is total: for every text on standard input \<open>main\<close> returns its
  output and raises no error, and so does the filter on every sequence of lines (the
  scan loop is a terminating function). A line that ends before a column span gives
  the empty cell.
\<close>

theorem transform_never_raises:
  "(\<exists>out. main content = Inr out) \<and> (\<exists>out. transform lines = Inr out) \<and>
   extract_value line (length line + n) end = []"
proof -
  obtain out where "transform (read_lines content) = Inr out"
    using transform_total by blast
  then have "\<exists>out. main content = Inr out" by (simp add: main_def)
  then show ?thesis using transform_total [of lines] by (simp add: extract_value_def)
qed

section \<open>The filter on a single table\<close>

lemma main_loop_skip:
  assumes "n \<le> length lines" and "\<forall>k. i \<le> k \<and> k < n \<longrightarrow> \<not> is_dash_line (lines ! k)"
  shows "main_loop lines i st = main_loop lines (max i n) st"
  using assms
proof (induction "n - i" arbitrary: i)
  case 0
  then show ?case by (simp add: max_def)
next
  case (Suc d)
  then have lt: "i < n" and nd: "\<not> is_dash_line (lines ! i)" by auto
  have "main_loop lines i st = main_loop lines (Suc i) st"
    using lt nd Suc.prems(1) by (subst main_loop.simps) simp
  also have "\<dots> = main_loop lines (max (Suc i) n) st"
    using Suc.hyps(1) [of "Suc i"] Suc.hyps(2) Suc.prems by auto
  finally show ?case using lt by (simp add: max_def)
qed

lemma collect_data_lines_all:
  assumes "\<forall>k. j \<le> k \<and> k < length lines \<longrightarrow> \<not> is_blank (lines ! k) \<and> \<not> is_dash_line (lines ! k)"
    and "j \<le> length lines"
  shows "collect_data_lines lines j acc = (acc @ drop j lines, length lines)"
  using assms
proof (induction lines j acc rule: collect_data_lines.induct)
  case (1 lines j data_lines)
  show ?case
  proof (cases "j < length lines")
    case False
    then show ?thesis using "1.prems" by (subst collect_data_lines.simps) simp
  next
    case True
    then have ok: "strip (lines ! j) \<noteq> []" "\<not> is_dash_line (lines ! j)"
      using "1.prems" by (auto simp: strip_empty_iff)
    have "collect_data_lines lines (Suc j) (data_lines @ [lines ! j])
            = ((data_lines @ [lines ! j]) @ drop (Suc j) lines, length lines)"
      using "1.IH" [OF True refl] ok "1.prems" True by auto
    then show ?thesis
      using True ok by (subst collect_data_lines.simps) (simp add: Cons_nth_drop_Suc)
  qed
qed

lemma collect_header_lines_all:
  assumes "n \<le> length lines"
    and "\<forall>i\<in>{0 ..< n}. acceptable_header (lines ! i) (gap_spans columns)"
  shows "collect_header_lines lines n columns = Inr [0 ..< n]"
proof -
  from collect_header_lines_char [OF assms(1), of columns]
  obtain k where k: "k \<le> n" "collect_header_lines lines n columns = Inr [k ..< n]"
    "k = 0 \<or> \<not> acceptable_header (lines ! (k - 1)) (gap_spans columns)"
    by blast
  have "k = 0"
  proof (rule ccontr)
    assume "k \<noteq> 0"
    then have "k - 1 \<in> {0 ..< n}" using k(1) by auto
    then show False using assms(2) k(3) \<open>k \<noteq> 0\<close> by blast
  qed
  then show ?thesis using k(2) by simp
qed

lemma render_header_only_eq:
  "render_header_only lines header_indices columns = render_table lines header_indices [] columns"
  by (simp add: render_header_only_def render_table_def)

lemma table_step_render:
  assumes "\<forall>idx\<in>set header_indices. idx < length lines" and "header_indices \<noteq> []"
  shows "\<exists>c. table_step lines header_indices dash_line_idx data_lines j columns st =
           Inr (st\<lparr>consumed := c,
                  output_map := (output_map st)(header_indices ! 0 \<mapsto>
                     render_table lines header_indices data_lines columns)\<rparr>) \<and>
             consumed st \<union> set header_indices \<union> {dash_line_idx} \<subseteq> c \<and>
             (data_lines \<noteq> [] \<longrightarrow> set [dash_line_idx + 1 ..< j] \<subseteq> c)"
  using table_step_Inr [OF assms, of dash_line_idx data_lines j columns st]
  by (cases "data_lines = []") (auto simp: render_header_only_eq)

lemma emit_lines_block:
  assumes "0 < length lines" and "output_map st 0 = Some block"
    and "\<forall>i. 0 < i \<and> i < length lines \<longrightarrow> output_map st i = None \<and> i \<in> consumed st"
  shows "emit_lines lines st = block"
proof -
  have "[0 ..< length lines] = 0 # [1 ..< length lines]"
    using assms(1) by (simp add: upt_conv_Cons)
  moreover have "concat (map (\<lambda>i. case output_map st i of
                         Some block \<Rightarrow> block
                       | None \<Rightarrow> if i \<in> consumed st then [] else [lines ! i])
               [1 ..< length lines]) = []"
    using assms(3) by auto
  ultimately show ?thesis using assms(2) by (simp add: emit_lines_def)
qed

lemma single_table_transform:
  assumes "single_table lines n"
  shows "transform lines =
           Inr (render_table lines [0 ..< n] (drop (n + 1) lines) (find_columns (lines ! n)))"
proof -
  let ?st = "\<lparr>consumed = {}, output_map = Map.empty, printed = []\<rparr>"
  let ?cols = "find_columns (lines ! n)"
  let ?block = "render_table lines [0 ..< n] (drop (n + 1) lines) ?cols"
  from assms have n: "0 < n" "n < length lines" and dash: "is_dash_line (lines ! n)"
    and hdr: "\<forall>i\<in>{0 ..< n}. \<not> is_dash_line (lines ! i) \<and> acceptable_header (lines ! i) (gap_spans ?cols)"
    and dat: "\<forall>i\<in>{n + 1 ..< length lines}. \<not> is_blank (lines ! i) \<and> \<not> is_dash_line (lines ! i)"
    by (auto simp: single_table_def)
  have skip: "main_loop lines 0 ?st = main_loop lines n ?st"
    using main_loop_skip [of n lines 0 ?st] n hdr by simp
  have hs: "collect_header_lines lines n ?cols = Inr [0 ..< n]"
    using collect_header_lines_all [of n lines ?cols] n hdr by simp
  have cd: "collect_data_lines lines (n + 1) [] = (drop (n + 1) lines, length lines)"
    using collect_data_lines_all [of "n + 1" lines "[]"] n dat by simp
  have ne: "[0 ..< n] \<noteq> []" using n by simp
  have rng: "\<forall>idx\<in>set [0 ..< n]. idx < length lines" using n by simp
  from table_step_render [OF rng ne, of n "drop (n + 1) lines" "length lines" ?cols ?st]
  obtain c where ts: "table_step lines [0 ..< n] n (drop (n + 1) lines) (length lines) ?cols ?st
      = Inr (?st\<lparr>consumed := c, output_map := (output_map ?st)([0 ..< n] ! 0 \<mapsto> ?block)\<rparr>)"
    and c1: "consumed ?st \<union> set [0 ..< n] \<union> {n} \<subseteq> c"
    and c2: "drop (n + 1) lines \<noteq> [] \<longrightarrow> set [n + 1 ..< length lines] \<subseteq> c"
    by blast
  let ?st' = "?st\<lparr>consumed := c, output_map := (output_map ?st)([0 ..< n] ! 0 \<mapsto> ?block)\<rparr>"
  have step: "main_loop lines n ?st = main_loop lines (length lines) ?st'"
    using n dash hs cd ts ne by (subst main_loop.simps) simp
  have fin: "main_loop lines (length lines) ?st' = Inr ?st'"
    by (subst main_loop.simps) simp
  have idx0: "[0 ..< n] ! 0 = 0" using n by simp
  have "\<forall>i. 0 < i \<and> i < length lines \<longrightarrow> i \<in> c"
  proof (intro allI impI)
    fix i assume i: "0 < i \<and> i < length lines"
    show "i \<in> c"
    proof (cases "i \<le> n")
      case True
      then show ?thesis using c1 i by (cases "i = n") auto
    next
      case False
      then have "drop (n + 1) lines \<noteq> []" using i by simp
      then show ?thesis using c2 i False by auto
    qed
  qed
  then have "emit_lines lines ?st' = ?block"
    using n idx0 by (intro emit_lines_block) auto
  then show ?thesis
    using skip step fin by (simp add: transform_def)
qed

section \<open>The geometry of a rendered separator\<close>








section \<open>Cells of a rendered line\<close>


lemma gap_spans_short [simp]: "gap_spans [] = []" "gap_spans [a] = []"
  by (simp_all add: gap_spans_def)



lemma spans_from_length [simp]: "length (spans_from off ws) = length ws"
  by (induction ws arbitrary: off) simp_all


section \<open>Justification signals of rendered cells\<close>










section \<open>Reading a rendered table back\<close>
















section \<open>The filter on a document\<close>



















section \<open>Reading the printed text back\<close>





















section \<open>Evaluation on concrete inputs\<close>

lemma replicate_numeral: "replicate (numeral v) x = x # replicate (numeral v - 1) x"
  by (simp add: numeral_eq_Suc)

lemma collect_header_loop_numeral:
  "collect_header_loop lines columns gaps (numeral v) header_indices =
     and_then (nth_py lines (pred_numeral v)) (\<lambda>line.
       if strip line = [] then Inr header_indices
       else if is_valid_header_line line columns gaps then
         collect_header_loop lines columns gaps (pred_numeral v) (header_indices @ [pred_numeral v])
       else Inr header_indices)"
  by (simp add: numeral_eq_Suc)

lemmas str_eval = ustr_def isspace_def strip_def lstrip_def rstrip_def ljust_def rjust_def
  extract_value_def replicate_numeral

lemmas table_eval = render_header_def render_dash_def render_data_def header_cell_strip
  data_cell_strip spec_width_def column_signal_def first_signal_def List.map_filter_simps
  signal_def is_blank_def leading_spaces_def trailing_spaces_def

lemmas scan_eval = transform_def main_loop.simps is_dash_line_def re_match_dashes_def
  find_columns_def find_columns_from.simps skip_dashes.simps collect_header_lines_def
  find_gaps_def is_valid_header_line_def collect_header_loop_numeral collect_data_lines.simps
  table_step_def process_table_def format_header_only_def extract_multiline_headers_def
  column_of_def format_row_def format_header_def column_justifications_def column_widths_def
  max_default_def emit_lines_def nth_py_def upt_conv_Cons Let_def

lemmas read_eval = main_def read_lines_def replace_cr_def

text \<open>The width computation of claim C5 on a small table with wide column spans.\<close>

theorem column_width_is_max_witness:
  "process_table [ustr ''NAME      AGE'', ustr ''--------  -----'', ustr ''Al           30''] [0] 1
      [ustr ''Al           30''] [(0, 8), (10, 15)]
     = Inr [ustr ''NAME AGE'', ustr ''---- ---'', ustr ''Al    30'']"
proof -
  let ?lines = "[ustr ''NAME      AGE'', ustr ''--------  -----'', ustr ''Al           30'']"
  let ?data = "[ustr ''Al           30'']"
  let ?columns = "[(0, 8), (10, 15)] :: (nat \<times> nat) list"
  have h: "\<forall>idx\<in>set [0::nat]. idx < length ?lines" by simp
  have w: "map (spec_width ?lines [0] ?data) ?columns = [4, 3]"
    by (simp add: table_eval str_eval)
  have j: "map (column_signal ?data) ?columns = [JLeft, JRight]"
    by (simp add: table_eval str_eval)
  have r: "map (render_header ?lines ?columns [4, 3]) [0] @ [render_dash [4, 3]] @
           map (render_data ?columns [JLeft, JRight] [4, 3]) ?data
           = [ustr ''NAME AGE'', ustr ''---- ---'', ustr ''Al    30'']"
    by (simp add: table_eval str_eval)
  from column_width_is_max [OF h, of 1 ?data ?columns]
  have "process_table ?lines [0] 1 ?data ?columns =
           Inr (map (render_header ?lines ?columns
                       (map (spec_width ?lines [0] ?data) ?columns)) [0] @
                [render_dash (map (spec_width ?lines [0] ?data) ?columns)] @
                map (render_data ?columns (map (column_signal ?data) ?columns)
                       (map (spec_width ?lines [0] ?data) ?columns)) ?data)"
    by blast
  then show ?thesis
    unfolding w j r .
qed

text \<open>
  Claim C5 as stated says that no content is truncated. The widths are computed from
  the cells, and a cell ends where the run of dashes of its column ends. In the first
  example of the specification the value \<open>Alice\<close> is wider than the run \<open>----\<close>
  above it: its cell is \<open>Alic\<close>, the column is rendered with width 4, not 5, and the
  last letter is dropped.
\<close>

theorem wide_value_is_cut:
  "find_columns (ustr ''----    ---'') = [(0, 4), (8, 11)] \<and>
   trimmed_text (span_text (ustr ''Alice   30'') (0, 8)) = ustr ''Alice'' \<and>
   transform (map ustr [''NAME    AGE'', ''----    ---'', ''Alice   30'', ''Bob     5''])
     = Inr (map ustr [''NAME AGE'', ''---- ---'', ''Alic 30'', ''Bob  5''])"
  by (simp add: scan_eval str_eval trimmed_text_def span_text_def leading_spaces_def
        trailing_spaces_def)

section \<open>Where the filter departs from the specification\<close>

text \<open>
  Claim C1 says that a separator line for which no header line is collected is passed
  through exactly once, at its place. The scan loop prints such a line at once, before
  anything else is written, and the final loop prints it again at its place: on the
  input below the line \<open>---\<close> comes first in the output and a second time after the
  blank line.
\<close>

theorem separator_without_header_printed_twice:
  "main (ustr ''intro'' @ [NEWLINE, NEWLINE] @ ustr ''---'' @ [NEWLINE] @ ustr ''body'' @ [NEWLINE])
     = Inr (ustr ''---'' @ [NEWLINE] @ ustr ''intro'' @ [NEWLINE, NEWLINE] @ ustr ''---'' @ [NEWLINE]
            @ ustr ''body'' @ [NEWLINE])"
  by (simp add: read_eval scan_eval str_eval)

text \<open>
  Claim C2 says that the lines consumed by a table are never collected again and that a
  later table never replaces the output of an earlier one. Header collection walks
  upward without looking at the consumed lines. In the first input line 3 is a data
  line of the first table and is collected again as the header of the second one, so
  it is written twice. In the second input the headers collected for the second
  separator are the lines 0, 1 and 2 of the first table, and the block of the second
  table replaces the block of the first one in \<open>output_map\<close>.
\<close>

theorem tables_overlap:
  "fst (collect_data_lines (map ustr [''H'', ''---'', ''abc'', ''d e'', ''- -'', ''z w'']) 2 [])
     = map ustr [''abc'', ''d e''] \<and>
   collect_header_lines (map ustr [''H'', ''---'', ''abc'', ''d e'', ''- -'', ''z w'']) 4
     (find_columns (ustr ''- -'')) = Inr [3] \<and>
   transform (map ustr [''H'', ''---'', ''abc'', ''d e'', ''- -'', ''z w''])
     = Inr (map ustr [''H'', ''---'', ''abc'', ''d e'', ''d e'', ''- -'', ''z w'']) \<and>
   process_table (map ustr [''A'', ''-'', ''x'', ''-'', ''y'']) [0] 1 [ustr ''x''] (find_columns (ustr ''-''))
     = Inr (map ustr [''A'', ''-'', ''x'']) \<and>
   collect_header_lines (map ustr [''A'', ''-'', ''x'', ''-'', ''y'']) 3 (find_columns (ustr ''-''))
     = Inr [0, 1, 2] \<and>
   transform (map ustr [''A'', ''-'', ''x'', ''-'', ''y''])
     = Inr (map ustr [''A'', ''-'', ''x'', ''-'', ''y''])"
  by (simp add: scan_eval str_eval)

text \<open>
  Claim C6 says that every rendered line, the separator line too, has its trailing
  whitespace removed. Header and data lines are trimmed on the right; the separator line
  is the plain join of the dash runs. When the last column has width 0 it ends with
  the space of the join.
\<close>

theorem separator_trailing_space:
  "transform (map ustr [''A'', ''- -'', ''x'']) = Inr [ustr ''A'', ustr ''- '', ustr ''x''] \<and>
   rstrip (ustr ''- '') \<noteq> ustr ''- ''"
  by (simp add: scan_eval str_eval)

section \<open>Running the filter twice\<close>


text \<open>
  A zero-width column is not the only way for a second run to change the text. The
  second run strips a byte order mark that the first run left at the start of its
  output; it prints once more a separator line without header that the first run
  printed twice; it can take the line above a table as a header line once the gaps of
  the rendered separator are narrower; it collects again the lines that two adjacent
  tables share; it ends a table at a data line that was rendered blank; and it starts
  a new table at a data line that was rendered as dashes and spaces only.
\<close>

lemma second_run_strips_mark:
  "main ([BOM, BOM] @ ustr ''hi'' @ [NEWLINE]) = Inr ([BOM] @ ustr ''hi'' @ [NEWLINE]) \<and>
   main ([BOM] @ ustr ''hi'' @ [NEWLINE]) = Inr (ustr ''hi'' @ [NEWLINE])"
  by (simp add: read_eval scan_eval str_eval)

lemma second_run_separator_without_header:
  "transform [ustr ''---''] = Inr (map ustr [''---'', ''---'']) \<and>
   transform (map ustr [''---'', ''---'']) = Inr (map ustr [''---'', ''---'', ''---''])"
  by (simp add: scan_eval str_eval)

lemma second_run_line_above:
  "transform (map ustr [''a  bcd'', ''A   B'', ''--  --'', ''x   y''])
     = Inr (map ustr [''a  bcd'', ''A B'', ''- -'', ''x y'']) \<and>
   transform (map ustr [''a  bcd'', ''A B'', ''- -'', ''x y''])
     = Inr (map ustr [''a'', ''A B'', ''- -'', ''x y''])"
  by (simp add: scan_eval str_eval)

lemma second_run_tables_adjacent:
  "transform (map ustr [''H'', ''---'', ''abc'', ''d e'', ''- -'', ''z w''])
     = Inr (map ustr [''H'', ''---'', ''abc'', ''d e'', ''d e'', ''- -'', ''z w'']) \<and>
   transform (map ustr [''H'', ''---'', ''abc'', ''d e'', ''d e'', ''- -'', ''z w''])
     = Inr (map ustr [''H'', ''---'', ''abc'', ''d e'', ''d e'', ''d e'', ''d e'', ''- -'', ''z w''])"
  by (simp add: scan_eval str_eval)

lemma second_run_blank_row:
  "transform (map ustr [''A   B'', ''--  --'', ''  x'', ''y   zz''])
     = Inr (map ustr [''A B'', ''- --'', '''', ''y zz'']) \<and>
   transform (map ustr [''A B'', ''- --'', '''', ''y zz''])
     = Inr (map ustr [''A B'', ''- -'', '''', ''y zz''])"
  by (simp add: scan_eval str_eval)

lemma second_run_separator_row:
  "transform (map ustr [''A    B'', ''--   --'', ''y    z'', ''- x  -'', ''uu   v''])
     = Inr (map ustr [''A  B'', ''-- -'', ''y  z'', ''-  -'', ''uu v'']) \<and>
   transform (map ustr [''A  B'', ''-- -'', ''y  z'', ''-  -'', ''uu v''])
     = Inr (map ustr [''A B'', ''- -'', ''y z'', ''y z'', ''- -'', ''u v''])"
  by (simp add: scan_eval str_eval)



end
